theory Spec2Isabelle
  imports Main "HOL-Library.Word" "HOL-Library.Multiset"
begin

section \<open>Random circuit generation (\<open>temp.py\<close>, function \<open>random_circuit\<close>)\<close>

text \<open>
  The generator builds a circuit over \<open>num_qubits\<close> wires: \<open>depth\<close> times it splits
  the qubit indices into groups of one or two, and for every group it picks a gate, draws
  its angle and, in conditional mode, sometimes a classical condition. All randomness
  comes from a numpy generator. The generator, the global numpy state and the seeding
  function are collaborators outside the file; they are the parameter \<open>R\<close> of the model,
  a record of the draws the code makes, each one a function of the state it draws from,
  returning the drawn value and the next state. What numpy refuses (an empty sequence, an
  empty range, a negative seed) is an error of the model.
\<close>

subsection \<open>Errors\<close>

datatype error =
    CircuitError          \<comment> \<open>qiskit: a register of a size below one (the spec's InvalidArgument)\<close>
  | ValueError_empty      \<comment> \<open>numpy: \<open>rng.choice\<close> of an empty sequence (the spec's CatalogExhausted)\<close>
  | ValueError_low_high   \<comment> \<open>numpy: \<open>rng.integers(low, high)\<close> with \<open>low >= high\<close>\<close>
  | ValueError_neg_power  \<comment> \<open>numpy: an integer to a negative integer power\<close>
  | ValueError_seed       \<comment> \<open>numpy: \<open>default_rng\<close> of a negative seed\<close>
  | UnboundLocalError     \<comment> \<open>Python: a local variable read before it was assigned\<close>

subsection \<open>The circuit object model\<close>

datatype gate = RXGate | RYGate | RZGate | CXGate | Reset | Measure

record register =
  reg_name :: string
  reg_size :: nat

record 'r instruction =
  kind :: gate
  params :: "'r list"
  qargs :: "nat list"
  cargs :: "nat list"
  condition :: "(register \<times> int) option"

record 'r circuit =
  qregs :: "register list"
  cregs :: "register list"
  data :: "'r instruction list"

text \<open>
  Modelled from the spec: the register constructor of the circuit library, which is not
  part of the repository. The spec (4.1, 6) has the circuit-construction collaborator
  reject a register size below one with the error it calls InvalidArgument.
\<close>

definition Register :: "int \<Rightarrow> string \<Rightarrow> error + register" where
  "Register n name =
     (if n < 1 then Inl CircuitError
      else Inr \<lparr>reg_name = name, reg_size = nat n\<rparr>)"

definition QuantumRegister :: "int \<Rightarrow> string \<Rightarrow> error + register" where
  "QuantumRegister n name = Register n name"

definition ClassicalRegister :: "int \<Rightarrow> string \<Rightarrow> error + register" where
  "ClassicalRegister n name = Register n name"

text \<open>\<open>QuantumCircuit(n)\<close> makes its own quantum register \<open>q\<close> of \<open>n\<close> qubits.\<close>

definition QuantumCircuit :: "int \<Rightarrow> error + 'r circuit" where
  "QuantumCircuit n =
     (case QuantumRegister n ''q'' of
        Inl e \<Rightarrow> Inl e
      | Inr r \<Rightarrow> Inr \<lparr>qregs = [r], cregs = [], data = []\<rparr>)"

definition add_register :: "'r circuit \<Rightarrow> register \<Rightarrow> 'r circuit" where
  "add_register qc r = qc\<lparr>cregs := cregs qc @ [r]\<rparr>"

definition append :: "'r circuit \<Rightarrow> 'r instruction \<Rightarrow> 'r circuit" where
  "append qc op = qc\<lparr>data := data qc @ [op]\<rparr>"

text \<open>\<open>qc.measure(qr, cr)\<close>: one measurement per qubit, qubit \<open>i\<close> into classical bit \<open>i\<close>.\<close>

definition measure_op :: "nat \<Rightarrow> nat \<Rightarrow> 'r instruction" where
  "measure_op q c =
     \<lparr>kind = Measure, params = [], qargs = [q], cargs = [c], condition = None\<rparr>"

definition measure_all :: "'r circuit \<Rightarrow> register \<Rightarrow> register \<Rightarrow> 'r circuit" where
  "measure_all qc qr cr =
     qc\<lparr>data := data qc @
       map (\<lambda>(q, c). measure_op q c) (zip [0..<reg_size qr] [0..<reg_size cr])\<rparr>"

definition num_qubits_of :: "'r circuit \<Rightarrow> nat" where
  "num_qubits_of qc = sum_list (map reg_size (qregs qc))"

definition num_clbits_of :: "'r circuit \<Rightarrow> nat" where
  "num_clbits_of qc = sum_list (map reg_size (cregs qc))"

subsection \<open>The sampling service\<close>

text \<open>
  \<open>'s\<close> is the state of the generator made by \<open>np.random.default_rng\<close>, \<open>'g\<close> the
  global state behind \<open>np.random.randint\<close>, \<open>'r\<close> the type of an angle.
  \<open>np_choice k\<close> is the position drawn by \<open>rng.choice\<close> in a sequence of \<open>k\<close>
  elements.
\<close>

record ('s, 'r, 'g) sampling =
  np_randint :: "int \<Rightarrow> int \<Rightarrow> 'g \<Rightarrow> int \<times> 'g"
  np_default_rng :: "int \<Rightarrow> 's"
  np_choice :: "nat \<Rightarrow> 's \<Rightarrow> nat \<times> 's"
  np_shuffle :: "nat list \<Rightarrow> 's \<Rightarrow> nat list \<times> 's"
  np_uniform :: "'s \<Rightarrow> 'r \<times> 's"
  np_integers :: "int \<Rightarrow> int \<Rightarrow> 's \<Rightarrow> int \<times> 's"

text \<open>What numpy promises of the draws: a position inside the sequence, a permutation,
  an integer inside the half-open range.\<close>

definition sampling_ok :: "('s, 'r, 'g) sampling \<Rightarrow> bool" where
  "sampling_ok R \<longleftrightarrow>
     (\<forall>k s. 0 < k \<longrightarrow> fst (np_choice R k s) < k) \<and>
     (\<forall>xs s. mset (fst (np_shuffle R xs s)) = mset xs) \<and>
     (\<forall>lo hi s. lo < hi \<longrightarrow> lo \<le> fst (np_integers R lo hi s) \<and> fst (np_integers R lo hi s) < hi)"

text \<open>The same promise of the global \<open>np.random.randint\<close>.\<close>

definition randint_ok :: "('s, 'r, 'g) sampling \<Rightarrow> bool" where
  "randint_ok R \<longleftrightarrow>
     (\<forall>lo hi g. lo < hi \<longrightarrow> lo \<le> fst (np_randint R lo hi g) \<and> fst (np_randint R lo hi g) < hi)"

text \<open>\<open>np.random.default_rng(seed)\<close> raises on a negative seed.\<close>

definition default_rng :: "('s, 'r, 'g) sampling \<Rightarrow> int \<Rightarrow> error + 's" where
  "default_rng R seed = (if seed < 0 then Inl ValueError_seed else Inr (np_default_rng R seed))"

text \<open>\<open>rng.choice(seq)\<close> raises on an empty sequence.\<close>

definition rng_choice :: "('s, 'r, 'g) sampling \<Rightarrow> 'a list \<Rightarrow> 's \<Rightarrow> error + ('a \<times> 's)" where
  "rng_choice R xs s =
     (if xs = [] then Inl ValueError_empty
      else (case np_choice R (length xs) s of (i, s') \<Rightarrow> Inr (xs ! i, s')))"

text \<open>\<open>rng.integers(low, high)\<close> raises when the range is empty.\<close>

definition rng_integers :: "('s, 'r, 'g) sampling \<Rightarrow> int \<Rightarrow> int \<Rightarrow> 's \<Rightarrow> error + (int \<times> 's)" where
  "rng_integers R low high s =
     (if low \<ge> high then Inl ValueError_low_high else Inr (np_integers R low high s))"

text \<open>
  \<open>np.power(2, n)\<close> on two Python integers computes in numpy's default integer type,
  64 bits wide and signed, and wraps around silently.
\<close>

definition np_power :: "int \<Rightarrow> int \<Rightarrow> error + int" where
  "np_power b e =
     (if e < 0 then Inl ValueError_neg_power
      else Inr (sint ((word_of_int b :: 64 word) ^ nat e)))"

definition INT32_MAX :: int where
  "INT32_MAX = 2147483647"

subsection \<open>The gate catalog\<close>

definition one_param :: "gate list" where "one_param = [RXGate, RYGate, RZGate]"
definition two_param :: "gate list" where "two_param = []"
definition three_param :: "gate list" where "three_param = []"
definition two_q_ops :: "gate list" where "two_q_ops = [CXGate]"
definition three_q_ops :: "gate list" where "three_q_ops = []"

text \<open>\<open>one_q_ops\<close> is local to the call: \<open>Reset\<close> joins it when the flag is set.\<close>

definition one_q_ops :: "bool \<Rightarrow> gate list" where
  "one_q_ops reset = [RXGate, RYGate, RZGate] @ (if reset then [Reset] else [])"

subsection \<open>One pass of the \<open>while\<close> loop\<close>

text \<open>
  The loop's variables: the generator, the qubits not yet used in this layer, the last
  value of the local variable \<open>operation\<close> (it survives from one pass to the next, and is
  unbound before the first), and the circuit.
\<close>

record ('s, 'r) loop_state =
  rng :: 's
  remaining_qubits :: "nat list"
  operation :: "gate option"
  qc :: "'r circuit"

text \<open>The \<open>if/elif\<close> chain on \<open>num_operands\<close>; when no branch is taken, \<open>operation\<close>
  keeps its old value.\<close>

definition select_operation ::
  "('s, 'r, 'g) sampling \<Rightarrow> gate list \<Rightarrow> nat \<Rightarrow> gate option \<Rightarrow> 's \<Rightarrow> error + (gate \<times> 's)" where
  "select_operation R one_q num_operands prev s =
     (if num_operands = 1 then rng_choice R one_q s
      else if num_operands = 2 then rng_choice R two_q_ops s
      else if num_operands = 3 then rng_choice R three_q_ops s
      else (case prev of None \<Rightarrow> Inl UnboundLocalError | Some g \<Rightarrow> Inr (g, s)))"

definition num_angles_of :: "gate \<Rightarrow> nat" where
  "num_angles_of g =
     (if g \<in> set one_param then 1
      else if g \<in> set two_param then 2
      else if g \<in> set three_param then 3
      else 0)"

text \<open>\<open>[rng.uniform(0, 2 * np.pi) for _ in range(num_angles)]\<close>\<close>

fun draw_angles :: "('s, 'r, 'g) sampling \<Rightarrow> nat \<Rightarrow> 's \<Rightarrow> 'r list \<times> 's" where
  "draw_angles R 0 s = ([], s)"
| "draw_angles R (Suc k) s =
     (case np_uniform R s of (a, s') \<Rightarrow>
        (case draw_angles R k s' of (as, s'') \<Rightarrow> (a # as, s'')))"

text \<open>\<open>if conditional and rng.choice(range(10)) == 0\<close>: the draw is made only in
  conditional mode.\<close>

definition attach_condition ::
  "('s, 'r, 'g) sampling \<Rightarrow> int \<Rightarrow> bool \<Rightarrow> register option \<Rightarrow> 'r instruction \<Rightarrow> 's
     \<Rightarrow> error + ('r instruction \<times> 's)" where
  "attach_condition R num_qubits conditional cr op s =
     (if conditional then
        (case rng_choice R [0..<10] s of
           Inl e \<Rightarrow> Inl e
         | Inr (c, s1) \<Rightarrow>
             if c = 0 then
               (case np_power 2 num_qubits of
                  Inl e \<Rightarrow> Inl e
                | Inr high \<Rightarrow>
                    (case rng_integers R 0 high s1 of
                       Inl e \<Rightarrow> Inl e
                     | Inr (v, s2) \<Rightarrow>
                         (case cr of
                            None \<Rightarrow> Inl UnboundLocalError
                          | Some creg \<Rightarrow> Inr (op\<lparr>condition := Some (creg, v)\<rparr>, s2))))
             else Inr (op, s1))
      else Inr (op, s))"

definition while_body ::
  "('s, 'r, 'g) sampling \<Rightarrow> int \<Rightarrow> bool \<Rightarrow> bool \<Rightarrow> register option
     \<Rightarrow> ('s, 'r) loop_state \<Rightarrow> error + ('s, 'r) loop_state" where
  "while_body R num_qubits conditional reset cr S =
     (let max_possible_operands = min (length (remaining_qubits S)) 2 in
      case rng_choice R [0..<max_possible_operands] (rng S) of
        Inl e \<Rightarrow> Inl e
      | Inr (c, s1) \<Rightarrow>
          (let num_operands = c + 1 in
           case np_shuffle R (remaining_qubits S) s1 of (shuffled, s2) \<Rightarrow>
          (let operands = take num_operands shuffled;
               remaining = filter (\<lambda>q. q \<notin> set operands) shuffled in
           case select_operation R (one_q_ops reset) num_operands (operation S) s2 of
             Inl e \<Rightarrow> Inl e
           | Inr (g, s3) \<Rightarrow>
               (case draw_angles R (num_angles_of g) s3 of (angles, s4) \<Rightarrow>
               (let op = \<lparr>kind = g, params = angles, qargs = operands, cargs = [],
                          condition = None\<rparr> in
                case attach_condition R num_qubits conditional cr op s4 of
                  Inl e \<Rightarrow> Inl e
                | Inr (op', s5) \<Rightarrow>
                    Inr \<lparr>rng = s5, remaining_qubits = remaining, operation = Some g,
                         qc = append (qc S) op'\<rparr>)))))"

subsection \<open>The loops\<close>

text \<open>\<open>while remaining_qubits:\<close> The loop ends only if the list shrinks, which is up to
  the shuffle; a run that never ends is \<open>None\<close>.\<close>

partial_function (option) while_loop ::
  "('s, 'r, 'g) sampling \<Rightarrow> int \<Rightarrow> bool \<Rightarrow> bool \<Rightarrow> register option
     \<Rightarrow> ('s, 'r) loop_state \<Rightarrow> (error + ('s, 'r) loop_state) option" where
  "while_loop R num_qubits conditional reset cr S =
     (if remaining_qubits S = [] then Some (Inr S)
      else (case while_body R num_qubits conditional reset cr S of
              Inl e \<Rightarrow> Some (Inl e)
            | Inr S' \<Rightarrow> while_loop R num_qubits conditional reset cr S'))"

declare while_loop.simps [code]

text \<open>\<open>for _ in range(depth):\<close> each pass starts from all the qubits.\<close>

fun depth_loop ::
  "('s, 'r, 'g) sampling \<Rightarrow> int \<Rightarrow> bool \<Rightarrow> bool \<Rightarrow> register option \<Rightarrow> nat
     \<Rightarrow> ('s, 'r) loop_state \<Rightarrow> (error + ('s, 'r) loop_state) option" where
  "depth_loop R num_qubits conditional reset cr 0 S = Some (Inr S)"
| "depth_loop R num_qubits conditional reset cr (Suc d) S =
     (case while_loop R num_qubits conditional reset cr
             (S\<lparr>remaining_qubits := [0..<nat num_qubits]\<rparr>) of
        None \<Rightarrow> None
      | Some (Inl e) \<Rightarrow> Some (Inl e)
      | Some (Inr S') \<Rightarrow> depth_loop R num_qubits conditional reset cr d S')"

subsection \<open>\<open>random_circuit\<close>\<close>

text \<open>The classical register exists only when \<open>measure or conditional\<close>.\<close>

definition make_cr ::
  "int \<Rightarrow> bool \<Rightarrow> bool \<Rightarrow> 'r circuit \<Rightarrow> error + (register option \<times> 'r circuit)" where
  "make_cr num_qubits measure_flag conditional c =
     (if measure_flag \<or> conditional then
        (case ClassicalRegister num_qubits ''c'' of
           Inl e \<Rightarrow> Inl e
         | Inr cr \<Rightarrow> Inr (Some cr, add_register c cr))
      else Inr (None, c))"

definition resolve_seed :: "('s, 'r, 'g) sampling \<Rightarrow> int option \<Rightarrow> 'g \<Rightarrow> int \<times> 'g" where
  "resolve_seed R seed g =
     (case seed of None \<Rightarrow> np_randint R 0 INT32_MAX g | Some s \<Rightarrow> (s, g))"

text \<open>The seeds that \<open>default_rng\<close> takes: none given, or one that is not negative.\<close>

definition seed_ok :: "int option \<Rightarrow> bool" where
  "seed_ok seed = (case seed of None \<Rightarrow> True | Some s \<Rightarrow> 0 \<le> s)"

definition finalize ::
  "bool \<Rightarrow> register \<Rightarrow> register option \<Rightarrow> 'r circuit \<Rightarrow> error + 'r circuit" where
  "finalize measure_flag qr cr c =
     (if measure_flag then
        (case cr of None \<Rightarrow> Inl UnboundLocalError | Some creg \<Rightarrow> Inr (measure_all c qr creg))
      else Inr c)"

text \<open>The result: \<open>None\<close> if the call never returns, the error raised or the circuit
  returned otherwise; with it the global numpy state after the call.\<close>

definition random_circuit ::
  "('s, 'r, 'g) sampling \<Rightarrow> int \<Rightarrow> int \<Rightarrow> bool \<Rightarrow> bool \<Rightarrow> bool \<Rightarrow> int option \<Rightarrow> 'g
     \<Rightarrow> (error + 'r circuit) option \<times> 'g" where
  "random_circuit R num_qubits depth measure_flag conditional reset seed g =
     (case QuantumRegister num_qubits ''q'' of
        Inl e \<Rightarrow> (Some (Inl e), g)
      | Inr qr \<Rightarrow>
     (case QuantumCircuit num_qubits of
        Inl e \<Rightarrow> (Some (Inl e), g)
      | Inr c0 \<Rightarrow>
     (case make_cr num_qubits measure_flag conditional c0 of
        Inl e \<Rightarrow> (Some (Inl e), g)
      | Inr (cr, c1) \<Rightarrow>
     (case resolve_seed R seed g of (seed', g') \<Rightarrow>
     (case default_rng R seed' of
        Inl e \<Rightarrow> (Some (Inl e), g')
      | Inr rng0 \<Rightarrow>
     (case depth_loop R num_qubits conditional reset cr (nat depth)
             \<lparr>rng = rng0, remaining_qubits = [], operation = None, qc = c1\<rparr> of
        None \<Rightarrow> (None, g')
      | Some (Inl e) \<Rightarrow> (Some (Inl e), g')
      | Some (Inr S) \<Rightarrow> (Some (finalize measure_flag qr cr (qc S)), g')))))))"

subsection \<open>A sampling source to run the model on\<close>

text \<open>A small deterministic source: its state is a number, the seed at first, and every
  draw takes the state's remainder and leaves the quotient.\<close>

definition digit_rng :: "(nat, nat, nat) sampling" where
  "digit_rng =
     \<lparr>np_randint = (\<lambda>lo hi g. (lo + int (g mod nat (hi - lo)), Suc g)),
      np_default_rng = (\<lambda>seed. nat \<bar>seed\<bar>),
      np_choice = (\<lambda>k s. (s mod k, s div k)),
      np_shuffle = (\<lambda>xs s. (rotate (s mod length xs) xs, s div length xs)),
      np_uniform = (\<lambda>s. (s mod 8, s div 8)),
      np_integers = (\<lambda>lo hi s. (lo + int (s mod nat (hi - lo)), s div nat (hi - lo)))\<rparr>"

subsection \<open>What a generated layer looks like\<close>

text \<open>An operation of a layer: one qubit and a gate of the one-qubit bucket, or two
  qubits and a gate of the two-qubit bucket; no classical bit; as many angles as the gate
  takes; a condition only in conditional mode, on the register \<open>c\<close>, its value inside
  \<open>[0, 2^num_qubits)\<close>.\<close>

definition op_ok :: "int \<Rightarrow> bool \<Rightarrow> bool \<Rightarrow> 'r instruction \<Rightarrow> bool" where
  "op_ok num_qubits conditional reset op \<longleftrightarrow>
     (length (qargs op) = 1 \<and> kind op \<in> set (one_q_ops reset) \<or>
      length (qargs op) = 2 \<and> kind op \<in> set two_q_ops) \<and>
     cargs op = [] \<and>
     length (params op) = num_angles_of (kind op) \<and>
     (case condition op of
        None \<Rightarrow> True
      | Some (r, v) \<Rightarrow>
          conditional \<and> r = \<lparr>reg_name = ''c'', reg_size = nat num_qubits\<rparr> \<and>
          0 \<le> v \<and> v < 2 ^ nat num_qubits)"

text \<open>A layer: its operand groups, put end to end, hold every qubit index once.\<close>

definition layer_ok :: "int \<Rightarrow> bool \<Rightarrow> bool \<Rightarrow> 'r instruction list \<Rightarrow> bool" where
  "layer_ok num_qubits conditional reset L \<longleftrightarrow>
     mset (concat (map qargs L)) = mset [0..<nat num_qubits] \<and>
     list_all (op_ok num_qubits conditional reset) L"

text \<open>The operations of a returned circuit before its final measurements.\<close>

definition layer_ops :: "int \<Rightarrow> bool \<Rightarrow> 'r circuit \<Rightarrow> 'r instruction list" where
  "layer_ops num_qubits measure_flag c =
     take (length (data c) - (if measure_flag then nat num_qubits else 0)) (data c)"

section \<open>Properties\<close>

subsection \<open>Arithmetic and lists\<close>

lemma sint_pow2_small: "n < 63 \<Longrightarrow> sint ((2::64 word) ^ n) = 2 ^ n"
proof -
  assume a: "n < 63"
  have "(2::64 word) ^ n \<noteq> 0"
    using a by (simp add: exp_eq_zero_iff)
  then have u: "uint ((2::64 word) ^ n) = 2 ^ n"
    by (intro uint_2p) (simp add: word_gt_0)
  have "(2::int) ^ n < 2 ^ 63"
    using a by (intro power_strict_increasing) simp_all
  moreover have "- ((2::int) ^ 63) \<le> 2 ^ n"
    by (rule order_trans[of _ 0]) simp_all
  ultimately have "signed_take_bit 63 ((2::int) ^ n) = 2 ^ n"
    by (intro signed_take_bit_int_eq_self)
  then show ?thesis
    using u by (simp add: sint_uint)
qed

lemma sint_pow2_large: "63 \<le> n \<Longrightarrow> sint ((2::64 word) ^ n) \<le> 0"
proof (cases "n = 63")
  case True
  then show ?thesis by simp
next
  case False
  assume "63 \<le> n"
  with False have "64 \<le> n" by simp
  then have z: "(2::64 word) ^ n = 0"
    by (simp add: exp_eq_zero_iff)
  show ?thesis unfolding z by simp
qed

lemma np_power_small: "0 \<le> n \<Longrightarrow> n \<le> 62 \<Longrightarrow> np_power 2 n = Inr (2 ^ nat n)"
  using sint_pow2_small[of "nat n"] by (simp add: np_power_def)

lemma np_power_large: "63 \<le> n \<Longrightarrow> \<exists>h. np_power 2 n = Inr h \<and> h \<le> 0"
  using sint_pow2_large[of "nat n"] by (simp add: np_power_def)

lemma filter_not_prefix:
  "distinct (as @ bs) \<Longrightarrow> filter (\<lambda>q. q \<notin> set as) (as @ bs) = bs"
  by (auto simp: filter_empty_conv intro!: filter_True)

lemma filter_take_drop:
  "distinct xs \<Longrightarrow> filter (\<lambda>q. q \<notin> set (take k xs)) xs = drop k xs"
  using filter_not_prefix[of "take k xs" "drop k xs"] by simp

subsection \<open>One pass, one layer, all layers\<close>

lemma rng_choice_mem:
  assumes "sampling_ok R" "xs \<noteq> []"
  shows "\<exists>x s'. rng_choice R xs s = Inr (x, s') \<and> x \<in> set xs"
proof -
  obtain i s' where c: "np_choice R (length xs) s = (i, s')" by (cases "np_choice R (length xs) s")
  have "fst (np_choice R (length xs) s) < length xs"
    using assms by (simp add: sampling_ok_def)
  with c have "i < length xs" by simp
  then show ?thesis using assms(2) c by (simp add: rng_choice_def)
qed

lemma rng_choice_upt:
  assumes "sampling_ok R" "0 < k"
  shows "\<exists>c s'. rng_choice R [0..<k] s = Inr (c, s') \<and> c < k"
  using rng_choice_mem[OF assms(1), of "[0..<k]" s] assms(2) by auto

lemma select_operation_ok:
  assumes "sampling_ok R" "k = 1 \<or> k = 2"
  shows "\<exists>g s'. select_operation R (one_q_ops reset) k prev s = Inr (g, s') \<and>
           (k = 1 \<and> g \<in> set (one_q_ops reset) \<or> k = 2 \<and> g \<in> set two_q_ops)"
proof -
  have n1: "one_q_ops reset \<noteq> []" by (simp add: one_q_ops_def)
  have n2: "two_q_ops \<noteq> []" by (simp add: two_q_ops_def)
  show ?thesis
    using assms(2) rng_choice_mem[OF assms(1) n1, of s] rng_choice_mem[OF assms(1) n2, of s]
    by (auto simp: select_operation_def)
qed

lemma draw_angles_length: "draw_angles R k s = (as, s') \<Longrightarrow> length as = k"
  by (induction k arbitrary: s as s') (auto split: prod.splits)

lemma attach_condition_cases:
  assumes ok: "sampling_ok R" and n: "1 \<le> n"
    and cr: "conditional \<longrightarrow> cr = Some creg"
  shows "(conditional \<and> 63 \<le> n \<and>
            attach_condition R n conditional cr op s = Inl ValueError_low_high) \<or>
         (\<exists>op' s'. attach_condition R n conditional cr op s = Inr (op', s') \<and>
            (op' = op \<or>
             conditional \<and> (\<exists>v. op' = op\<lparr>condition := Some (creg, v)\<rparr> \<and> 0 \<le> v \<and> v < 2 ^ nat n)))"
proof (cases conditional)
  case False
  then show ?thesis by (simp add: attach_condition_def)
next
  case True
  obtain c s1 where c: "rng_choice R [0..<10] s = Inr (c, s1)"
    using rng_choice_upt[OF ok, of 10 s] by auto
  show ?thesis
  proof (cases "c = 0")
    case False
    then show ?thesis using True c by (simp add: attach_condition_def)
  next
    case c0: True
    show ?thesis
    proof (cases "n \<le> 62")
      case True
      then have p: "np_power 2 n = Inr (2 ^ nat n)" using n by (simp add: np_power_small)
      obtain v s2 where v: "np_integers R 0 (2 ^ nat n) s1 = (v, s2)"
        by (cases "np_integers R 0 (2 ^ nat n) s1")
      have "0 \<le> fst (np_integers R 0 (2 ^ nat n) s1) \<and> fst (np_integers R 0 (2 ^ nat n) s1) < 2 ^ nat n"
        using ok by (simp add: sampling_ok_def)
      with v have "0 \<le> v" "v < 2 ^ nat n" by simp_all
      then show ?thesis
        using \<open>conditional\<close> c c0 p v cr
        by (auto simp: attach_condition_def rng_integers_def)
    next
      case False
      then have "63 \<le> n" by simp
      then obtain h where "np_power 2 n = Inr h" "h \<le> 0" using np_power_large by blast
      then show ?thesis
        using \<open>conditional\<close> c c0 \<open>63 \<le> n\<close>
        by (simp add: attach_condition_def rng_integers_def)
    qed
  qed
qed

lemma while_body_cases:
  assumes ok: "sampling_ok R" and n: "1 \<le> n"
    and cr: "conditional \<longrightarrow> cr = Some \<lparr>reg_name = ''c'', reg_size = nat n\<rparr>"
    and ne: "remaining_qubits S \<noteq> []" and d: "distinct (remaining_qubits S)"
  shows "(conditional \<and> 63 \<le> n \<and>
            while_body R n conditional reset cr S = Inl ValueError_low_high) \<or>
         (\<exists>op S'. while_body R n conditional reset cr S = Inr S' \<and>
            qc S' = append (qc S) op \<and> op_ok n conditional reset op \<and>
            mset (qargs op) + mset (remaining_qubits S') = mset (remaining_qubits S) \<and>
            distinct (remaining_qubits S') \<and>
            length (remaining_qubits S') < length (remaining_qubits S))"
proof -
  let ?rem = "remaining_qubits S"
  let ?m = "min (length ?rem) 2"
  have m0: "0 < ?m" using ne by simp
  obtain c s1 where c: "rng_choice R [0..<?m] (rng S) = Inr (c, s1)" and cm: "c < ?m"
    using rng_choice_upt[OF ok m0, of "rng S"] by auto
  obtain shuffled s2 where sh: "np_shuffle R ?rem s1 = (shuffled, s2)"
    by (cases "np_shuffle R ?rem s1")
  have "mset (fst (np_shuffle R ?rem s1)) = mset ?rem"
    using ok by (simp add: sampling_ok_def)
  with sh have ms: "mset shuffled = mset ?rem" by simp
  have len: "length shuffled = length ?rem" using ms by (metis size_mset)
  have dsh: "distinct shuffled" using ms d by (metis mset_eq_imp_distinct_iff)
  let ?k = "c + 1"
  let ?operands = "take ?k shuffled"
  have k12: "?k = 1 \<or> ?k = 2" using cm by auto
  have klen: "?k \<le> length shuffled" using cm len by simp
  have lo: "length ?operands = ?k" using klen by simp
  have rem': "filter (\<lambda>q. q \<notin> set ?operands) shuffled = drop ?k shuffled"
    using dsh by (rule filter_take_drop)
  obtain g s3 where g: "select_operation R (one_q_ops reset) ?k (operation S) s2 = Inr (g, s3)"
    and gk: "?k = 1 \<and> g \<in> set (one_q_ops reset) \<or> ?k = 2 \<and> g \<in> set two_q_ops"
    using select_operation_ok[OF ok k12, of reset "operation S" s2] by auto
  obtain angles s4 where an: "draw_angles R (num_angles_of g) s3 = (angles, s4)"
    by (cases "draw_angles R (num_angles_of g) s3")
  have la: "length angles = num_angles_of g" using an by (rule draw_angles_length)
  let ?op = "\<lparr>kind = g, params = angles, qargs = ?operands, cargs = [], condition = None\<rparr>"
  have body: "while_body R n conditional reset cr S =
    (case attach_condition R n conditional cr ?op s4 of
       Inl e \<Rightarrow> Inl e
     | Inr (op', s5) \<Rightarrow>
         Inr \<lparr>rng = s5, remaining_qubits = drop ?k shuffled, operation = Some g,
              qc = append (qc S) op'\<rparr>)"
    using c sh g an rem' by (simp add: while_body_def Let_def split: sum.splits prod.splits)
  have msplit: "mset ?operands + mset (drop ?k shuffled) = mset ?rem"
    using ms by (metis append_take_drop_id mset_append)
  from attach_condition_cases[OF ok n cr, of ?op s4]
  show ?thesis
  proof
    assume A: "conditional \<and> 63 \<le> n \<and>
            attach_condition R n conditional cr ?op s4 = Inl ValueError_low_high"
    then have e: "attach_condition R n conditional cr ?op s4 = Inl ValueError_low_high"
      by blast
    have "while_body R n conditional reset cr S = Inl ValueError_low_high"
      unfolding body e by simp
    then show ?thesis using A by blast
  next
    assume "\<exists>op' s'. attach_condition R n conditional cr ?op s4 = Inr (op', s') \<and>
            (op' = ?op \<or>
             conditional \<and> (\<exists>v. op' = ?op\<lparr>condition := Some (\<lparr>reg_name = ''c'', reg_size = nat n\<rparr>, v)\<rparr> \<and> 0 \<le> v \<and> v < 2 ^ nat n))"
    then obtain op' s' where a: "attach_condition R n conditional cr ?op s4 = Inr (op', s')"
      and o: "op' = ?op \<or>
             conditional \<and> (\<exists>v. op' = ?op\<lparr>condition := Some (\<lparr>reg_name = ''c'', reg_size = nat n\<rparr>, v)\<rparr> \<and> 0 \<le> v \<and> v < 2 ^ nat n)"
      by blast
    have q: "qargs op' = ?operands" using o by auto
    have okop: "op_ok n conditional reset op'"
      using o gk lo la by (auto simp: op_ok_def)
    have "while_body R n conditional reset cr S =
        Inr \<lparr>rng = s', remaining_qubits = drop ?k shuffled, operation = Some g,
              qc = append (qc S) op'\<rparr>"
      unfolding body a by simp
    moreover have "length (drop ?k shuffled) < length ?rem"
      using len ne by simp
    ultimately show ?thesis using okop q msplit dsh by auto
  qed
qed


lemma while_loop_cases:
  assumes ok: "sampling_ok R" and n: "1 \<le> n"
    and cr: "conditional \<longrightarrow> cr = Some \<lparr>reg_name = ''c'', reg_size = nat n\<rparr>"
    and d: "distinct (remaining_qubits S)"
  shows "(conditional \<and> 63 \<le> n \<and>
            while_loop R n conditional reset cr S = Some (Inl ValueError_low_high)) \<or>
         (\<exists>L S'. while_loop R n conditional reset cr S = Some (Inr S') \<and>
            qc S' = (qc S)\<lparr>data := data (qc S) @ L\<rparr> \<and>
            mset (concat (map qargs L)) = mset (remaining_qubits S) \<and>
            list_all (op_ok n conditional reset) L)"
  using d
proof (induction "length (remaining_qubits S)" arbitrary: S rule: less_induct)
  case less
  show ?case
  proof (cases "remaining_qubits S = []")
    case True
    then have "while_loop R n conditional reset cr S = Some (Inr S)"
      by (subst while_loop.simps) simp
    moreover have "qc S = (qc S)\<lparr>data := data (qc S) @ []\<rparr>" by simp
    ultimately show ?thesis using True
      by (intro disjI2 exI[of _ "[]"] exI[of _ S]) simp
  next
    case False
    from while_body_cases[OF ok n cr False less.prems, of reset]
    show ?thesis
    proof
      assume A: "conditional \<and> 63 \<le> n \<and>
            while_body R n conditional reset cr S = Inl ValueError_low_high"
      then have e: "while_body R n conditional reset cr S = Inl ValueError_low_high" by blast
      have "while_loop R n conditional reset cr S = Some (Inl ValueError_low_high)"
        using False by (subst while_loop.simps) (simp add: e)
      then show ?thesis using A by blast
    next
      assume "\<exists>op S'. while_body R n conditional reset cr S = Inr S' \<and>
            qc S' = append (qc S) op \<and> op_ok n conditional reset op \<and>
            mset (qargs op) + mset (remaining_qubits S') = mset (remaining_qubits S) \<and>
            distinct (remaining_qubits S') \<and>
            length (remaining_qubits S') < length (remaining_qubits S)"
      then obtain op S1 where b: "while_body R n conditional reset cr S = Inr S1"
        and q1: "qc S1 = append (qc S) op" and o1: "op_ok n conditional reset op"
        and m1: "mset (qargs op) + mset (remaining_qubits S1) = mset (remaining_qubits S)"
        and d1: "distinct (remaining_qubits S1)"
        and l1: "length (remaining_qubits S1) < length (remaining_qubits S)"
        by blast
      have unf: "while_loop R n conditional reset cr S = while_loop R n conditional reset cr S1"
        using False by (subst while_loop.simps) (simp add: b)
      from less.hyps[OF l1 d1]
      show ?thesis
      proof
        assume "conditional \<and> 63 \<le> n \<and>
            while_loop R n conditional reset cr S1 = Some (Inl ValueError_low_high)"
        then show ?thesis using unf by auto
      next
        assume "\<exists>L S'. while_loop R n conditional reset cr S1 = Some (Inr S') \<and>
            qc S' = (qc S1)\<lparr>data := data (qc S1) @ L\<rparr> \<and>
            mset (concat (map qargs L)) = mset (remaining_qubits S1) \<and>
            list_all (op_ok n conditional reset) L"
        then obtain L S2 where w: "while_loop R n conditional reset cr S1 = Some (Inr S2)"
          and q2: "qc S2 = (qc S1)\<lparr>data := data (qc S1) @ L\<rparr>"
          and m2: "mset (concat (map qargs L)) = mset (remaining_qubits S1)"
          and o2: "list_all (op_ok n conditional reset) L"
          by blast
        show ?thesis
        proof (intro disjI2 exI conjI)
          show "while_loop R n conditional reset cr S = Some (Inr S2)"
            using unf w by simp
          show "qc S2 = (qc S)\<lparr>data := data (qc S) @ (op # L)\<rparr>"
            using q1 q2 by (simp add: append_def)
          show "mset (concat (map qargs (op # L))) = mset (remaining_qubits S)"
            using m1 m2 by simp
          show "list_all (op_ok n conditional reset) (op # L)"
            using o1 o2 by simp
        qed
      qed
    qed
  qed
qed

lemma depth_loop_cases:
  assumes ok: "sampling_ok R" and n: "1 \<le> n"
    and cr: "conditional \<longrightarrow> cr = Some \<lparr>reg_name = ''c'', reg_size = nat n\<rparr>"
  shows "(conditional \<and> 63 \<le> n \<and> 0 < d \<and>
            depth_loop R n conditional reset cr d S = Some (Inl ValueError_low_high)) \<or>
         (\<exists>layers S'. depth_loop R n conditional reset cr d S = Some (Inr S') \<and>
            qc S' = (qc S)\<lparr>data := data (qc S) @ concat layers\<rparr> \<and>
            length layers = d \<and>
            list_all (layer_ok n conditional reset) layers)"
proof (induction d arbitrary: S)
  case 0
  have "qc S = (qc S)\<lparr>data := data (qc S) @ concat []\<rparr>" by simp
  then show ?case
    by (intro disjI2 exI[of _ "[]"] exI[of _ S]) simp
next
  case (Suc d)
  let ?S0 = "S\<lparr>remaining_qubits := [0..<nat n]\<rparr>"
  have d0: "distinct (remaining_qubits ?S0)" by simp
  from while_loop_cases[OF ok n cr d0, of reset]
  show ?case
  proof
    assume "conditional \<and> 63 \<le> n \<and>
            while_loop R n conditional reset cr ?S0 = Some (Inl ValueError_low_high)"
    then show ?thesis by auto
  next
    assume "\<exists>L S'. while_loop R n conditional reset cr ?S0 = Some (Inr S') \<and>
            qc S' = (qc ?S0)\<lparr>data := data (qc ?S0) @ L\<rparr> \<and>
            mset (concat (map qargs L)) = mset (remaining_qubits ?S0) \<and>
            list_all (op_ok n conditional reset) L"
    then obtain L S1 where w: "while_loop R n conditional reset cr ?S0 = Some (Inr S1)"
      and q1: "qc S1 = (qc S)\<lparr>data := data (qc S) @ L\<rparr>"
      and m1: "mset (concat (map qargs L)) = mset [0..<nat n]"
      and o1: "list_all (op_ok n conditional reset) L"
      by auto
    have l1: "layer_ok n conditional reset L" using m1 o1 by (simp add: layer_ok_def)
    have unf: "depth_loop R n conditional reset cr (Suc d) S =
               depth_loop R n conditional reset cr d S1"
      using w by simp
    from Suc.IH[of S1]
    show ?thesis
    proof
      assume "conditional \<and> 63 \<le> n \<and> 0 < d \<and>
            depth_loop R n conditional reset cr d S1 = Some (Inl ValueError_low_high)"
      then show ?thesis using unf by auto
    next
      assume "\<exists>layers S'. depth_loop R n conditional reset cr d S1 = Some (Inr S') \<and>
            qc S' = (qc S1)\<lparr>data := data (qc S1) @ concat layers\<rparr> \<and>
            length layers = d \<and>
            list_all (layer_ok n conditional reset) layers"
      then obtain layers S2 where dl: "depth_loop R n conditional reset cr d S1 = Some (Inr S2)"
        and q2: "qc S2 = (qc S1)\<lparr>data := data (qc S1) @ concat layers\<rparr>"
        and len: "length layers = d"
        and o2: "list_all (layer_ok n conditional reset) layers"
        by blast
      show ?thesis
      proof (intro disjI2 exI conjI)
        show "depth_loop R n conditional reset cr (Suc d) S = Some (Inr S2)"
          using unf dl by simp
        show "qc S2 = (qc S)\<lparr>data := data (qc S) @ concat (L # layers)\<rparr>"
          using q1 q2 by simp
        show "length (L # layers) = Suc d" using len by simp
        show "list_all (layer_ok n conditional reset) (L # layers)"
          using l1 o2 by simp
      qed
    qed
  qed
qed

subsection \<open>The whole call\<close>

lemma random_circuit_cases:
  assumes ok: "sampling_ok R" and n: "1 \<le> n"
  shows "(fst (resolve_seed R seed g) < 0 \<and>
            fst (random_circuit R n depth measure_flag conditional reset seed g) =
              Some (Inl ValueError_seed)) \<or>
         (conditional \<and> 63 \<le> n \<and> 0 < depth \<and>
            fst (random_circuit R n depth measure_flag conditional reset seed g) =
              Some (Inl ValueError_low_high)) \<or>
         (\<exists>layers c. 0 \<le> fst (resolve_seed R seed g) \<and>
            fst (random_circuit R n depth measure_flag conditional reset seed g) =
              Some (Inr c) \<and>
            qregs c = [\<lparr>reg_name = ''q'', reg_size = nat n\<rparr>] \<and>
            cregs c = (if measure_flag \<or> conditional
                       then [\<lparr>reg_name = ''c'', reg_size = nat n\<rparr>] else []) \<and>
            data c = concat layers @
              (if measure_flag then map (\<lambda>i. \<lparr>kind = Measure, params = [], qargs = [i], cargs = [i], condition = None\<rparr>) [0..<nat n] else []) \<and>
            length layers = nat depth \<and>
            list_all (layer_ok n conditional reset) layers)"
proof -
  let ?out = "fst (random_circuit R n depth measure_flag conditional reset seed g)"
  let ?qr = "\<lparr>reg_name = ''q'', reg_size = nat n\<rparr>"
  let ?creg = "\<lparr>reg_name = ''c'', reg_size = nat n\<rparr>"
  let ?c0 = "\<lparr>qregs = [?qr], cregs = [], data = []\<rparr> :: 'b circuit"
  let ?cr = "if measure_flag \<or> conditional then Some ?creg else None"
  let ?c1 = "if measure_flag \<or> conditional then add_register ?c0 ?creg else ?c0"
  obtain seed' g' where rs: "resolve_seed R seed g = (seed', g')"
    by (cases "resolve_seed R seed g")
  let ?S = "\<lparr>rng = np_default_rng R seed', remaining_qubits = [], operation = None, qc = ?c1\<rparr>"
  have qr: "QuantumRegister n ''q'' = Inr ?qr"
    using n by (simp add: QuantumRegister_def Register_def)
  have qc0: "(QuantumCircuit n :: error + 'b circuit) = Inr ?c0"
    using qr by (simp add: QuantumCircuit_def)
  have mk: "make_cr n measure_flag conditional ?c0 = Inr (?cr, ?c1)"
    using n by (simp add: make_cr_def ClassicalRegister_def Register_def)
  show ?thesis
  proof (cases "seed' < 0")
    case True
    then have "?out = Some (Inl ValueError_seed)"
      by (simp add: random_circuit_def qr qc0 mk rs default_rng_def)
    then show ?thesis using True rs by simp
  next
    case False
    then have s0: "0 \<le> fst (resolve_seed R seed g)" using rs by simp
    have unf: "?out =
       (case depth_loop R n conditional reset ?cr (nat depth) ?S of
          None \<Rightarrow> None
        | Some (Inl e) \<Rightarrow> Some (Inl e)
        | Some (Inr S) \<Rightarrow> Some (finalize measure_flag ?qr ?cr (qc S)))"
      using False
      by (simp add: random_circuit_def qr qc0 mk rs default_rng_def
          split: option.splits sum.splits)
    have cr: "conditional \<longrightarrow> ?cr = Some ?creg" by simp
    from depth_loop_cases[OF ok n cr, of "nat depth" reset ?S]
    show ?thesis
    proof
      assume A: "conditional \<and> 63 \<le> n \<and> 0 < nat depth \<and>
              depth_loop R n conditional reset ?cr (nat depth) ?S = Some (Inl ValueError_low_high)"
      then have e: "depth_loop R n conditional reset ?cr (nat depth) ?S =
                    Some (Inl ValueError_low_high)"
        by blast
      have "?out = Some (Inl ValueError_low_high)"
        unfolding unf e by simp
      then show ?thesis using A by auto
    next
      assume "\<exists>layers S'. depth_loop R n conditional reset ?cr (nat depth) ?S = Some (Inr S') \<and>
              qc S' = (qc ?S)\<lparr>data := data (qc ?S) @ concat layers\<rparr> \<and>
              length layers = nat depth \<and>
              list_all (layer_ok n conditional reset) layers"
      then obtain layers S' where
        dl: "depth_loop R n conditional reset ?cr (nat depth) ?S = Some (Inr S')"
        and q: "qc S' = (qc ?S)\<lparr>data := data (qc ?S) @ concat layers\<rparr>"
        and len: "length layers = nat depth"
        and lo: "list_all (layer_ok n conditional reset) layers"
        by blast
      have zip: "map (\<lambda>(q, c). measure_op q c) (zip [0..<nat n] [0..<nat n]) =
                 (map (\<lambda>i. \<lparr>kind = Measure, params = [], qargs = [i], cargs = [i], condition = None\<rparr>) [0..<nat n] :: 'b instruction list)"
        by (simp add: zip_same_conv_map measure_op_def)
      define c where "c = (if measure_flag then measure_all (qc S') ?qr ?creg else qc S')"
      have fin: "finalize measure_flag ?qr ?cr (qc S') = Inr c"
        by (simp add: finalize_def c_def)
      have cq: "qregs c = qregs (qc S')" and cc: "cregs c = cregs (qc S')"
        by (simp_all add: c_def measure_all_def)
      have cd: "data c = data (qc S') @ (if measure_flag then map (\<lambda>i. \<lparr>kind = Measure, params = [], qargs = [i], cargs = [i], condition = None\<rparr>) [0..<nat n] else [])"
        using zip by (simp add: c_def measure_all_def)
      show ?thesis
      proof (intro disjI2 exI conjI)
        show "0 \<le> fst (resolve_seed R seed g)" by fact
        show "?out = Some (Inr c)"
          unfolding unf dl using fin by simp
        show "qregs c = [?qr]" using cq q by (simp add: add_register_def)
        show "cregs c = (if measure_flag \<or> conditional then [?creg] else [])"
          using cc q by (simp add: add_register_def)
        show "data c = concat layers @ (if measure_flag then map (\<lambda>i. \<lparr>kind = Measure, params = [], qargs = [i], cargs = [i], condition = None\<rparr>) [0..<nat n] else [])"
          using cd q by (simp add: add_register_def)
        show "length layers = nat depth" by fact
        show "list_all (layer_ok n conditional reset) layers" by fact
      qed
    qed
  qed
qed

lemma seed_resolved:
  assumes "randint_ok R" "seed_ok seed"
  shows "0 \<le> fst (resolve_seed R seed g)"
proof (cases seed)
  case None
  have "(0::int) < INT32_MAX" by (simp add: INT32_MAX_def)
  then have "0 \<le> fst (np_randint R 0 INT32_MAX g)"
    using assms(1) by (simp add: randint_ok_def)
  then show ?thesis using None by (simp add: resolve_seed_def)
next
  case (Some s)
  then show ?thesis using assms(2) by (simp add: resolve_seed_def seed_ok_def)
qed

lemma random_circuit_returns:
  assumes "sampling_ok R" "randint_ok R" "1 \<le> n" "seed_ok seed"
    "\<not> (conditional \<and> 63 \<le> n \<and> 0 < depth)"
  shows "\<exists>c. fst (random_circuit R n depth measure_flag conditional reset seed g) = Some (Inr c)"
proof -
  have "\<not> fst (resolve_seed R seed g) < 0"
    using seed_resolved[OF assms(2,4), of g] by simp
  then show ?thesis
    using random_circuit_cases[OF assms(1,3), of seed g depth measure_flag conditional reset]
      assms(5)
    by blast
qed

lemma negative_seed_rejected:
  assumes "1 \<le> n" "s < 0"
  shows "fst (random_circuit R n depth measure_flag conditional reset (Some s) g) =
           Some (Inl ValueError_seed)"
  using assms
  by (simp add: random_circuit_def QuantumRegister_def QuantumCircuit_def Register_def
      make_cr_def ClassicalRegister_def resolve_seed_def default_rng_def)

lemma random_circuit_shape:
  assumes "sampling_ok R" "1 \<le> n"
    and "fst (random_circuit R n depth measure_flag conditional reset seed g) = Some (Inr c)"
  shows "\<exists>layers.
            qregs c = [\<lparr>reg_name = ''q'', reg_size = nat n\<rparr>] \<and>
            cregs c = (if measure_flag \<or> conditional
                       then [\<lparr>reg_name = ''c'', reg_size = nat n\<rparr>] else []) \<and>
            data c = concat layers @
              (if measure_flag then map (\<lambda>i. \<lparr>kind = Measure, params = [], qargs = [i], cargs = [i], condition = None\<rparr>) [0..<nat n] else []) \<and>
            length layers = nat depth \<and>
            list_all (layer_ok n conditional reset) layers"
  using random_circuit_cases[OF assms(1,2), of seed g depth measure_flag conditional reset]
    assms(3)
  by auto

lemma op_ok_sizes: "op_ok n conditional reset op \<Longrightarrow> length (qargs op) = 1 \<or> length (qargs op) = 2"
  by (auto simp: op_ok_def)

lemma op_ok_not_measure: "op_ok n conditional reset op \<Longrightarrow> kind op \<noteq> Measure"
  by (auto simp: op_ok_def one_q_ops_def two_q_ops_def split: if_splits)

lemma op_ok_unconditional: "op_ok n False reset op \<Longrightarrow> condition op = None"
  by (auto simp: op_ok_def split: option.splits)

lemma random_circuit_layers:
  assumes "sampling_ok R" "1 \<le> n"
    and "fst (random_circuit R n depth measure_flag conditional reset seed g) = Some (Inr c)"
  shows "\<exists>layers.
            layer_ops n measure_flag c = concat layers \<and>
            data c = layer_ops n measure_flag c @
              (if measure_flag then map (\<lambda>i. \<lparr>kind = Measure, params = [], qargs = [i], cargs = [i], condition = None\<rparr>) [0..<nat n] else []) \<and>
            length layers = nat depth \<and>
            list_all (layer_ok n conditional reset) layers"
proof -
  from random_circuit_shape[OF assms] obtain layers where
    d: "data c = concat layers @ (if measure_flag then map (\<lambda>i. \<lparr>kind = Measure, params = [], qargs = [i], cargs = [i], condition = None\<rparr>) [0..<nat n] else [])"
    and l: "length layers = nat depth"
    and o: "list_all (layer_ok n conditional reset) layers"
    by blast
  have "layer_ops n measure_flag c = concat layers"
    by (simp add: layer_ops_def d)
  then show ?thesis using d l o by auto
qed

lemma layers_all_ops:
  assumes "list_all (layer_ok n conditional reset) layers"
  shows "list_all (op_ok n conditional reset) (concat layers)"
  using assms by (induction layers) (auto simp: layer_ok_def)

lemma touched_by_one:
  "distinct (concat (map f L)) \<Longrightarrow>
   length (filter (\<lambda>x. q \<in> set (f x)) L) = (if q \<in> set (concat (map f L)) then 1 else 0)"
  by (induction L) auto

lemma layer_touches_once:
  assumes "layer_ok n conditional reset L" "q < nat n"
  shows "length (filter (\<lambda>op. q \<in> set (qargs op)) L) = Suc 0"
proof -
  have m: "mset (concat (map qargs L)) = mset [0..<nat n]"
    using assms(1) by (simp add: layer_ok_def)
  have "distinct (concat (map qargs L))"
    using m by (metis distinct_upt mset_eq_imp_distinct_iff)
  moreover have "q \<in> set (concat (map qargs L))"
    using mset_eq_setD[OF m] assms(2) by simp
  ultimately show ?thesis using touched_by_one[of qargs L q] by simp
qed

lemma filter_concat_count:
  "list_all (\<lambda>L. length (filter P L) = Suc 0) layers \<Longrightarrow>
   length (filter P (concat layers)) = length layers"
  by (induction layers) auto

lemma layer_ok_single:
  assumes "layer_ok 1 conditional reset L"
  shows "\<exists>op. L = [op] \<and> qargs op = [0] \<and> kind op \<in> set (one_q_ops reset)"
proof -
  have m: "mset (concat (map qargs L)) = {#0#}"
    using assms by (simp add: layer_ok_def)
  then have c: "concat (map qargs L) = [0]" by (simp add: mset_single_iff_right)
  have o: "list_all (op_ok 1 conditional reset) L"
    using assms by (simp add: layer_ok_def)
  have ne: "\<forall>op\<in>set L. qargs op \<noteq> []"
    using o by (auto simp: list_all_iff op_ok_def)
  show ?thesis
  proof (cases L)
    case Nil
    then show ?thesis using c by simp
  next
    case (Cons op L')
    have q: "qargs op @ concat (map qargs L') = [0]" using c Cons by simp
    have "qargs op \<noteq> []" using ne Cons by simp
    with q have q0: "qargs op = [0]" and r: "concat (map qargs L') = []"
      by (auto simp: append_eq_Cons_conv)
    have "L' = []"
    proof (cases L')
      case Nil then show ?thesis .
    next
      case (Cons op' L'')
      then have "qargs op' \<noteq> []" using ne \<open>L = op # L'\<close> by simp
      then show ?thesis using r Cons by simp
    qed
    moreover have "kind op \<in> set (one_q_ops reset)"
      using o Cons q0 by (simp add: op_ok_def)
    ultimately show ?thesis using Cons q0 by simp
  qed
qed

lemma single_layers:
  assumes "list_all (layer_ok 1 conditional reset) layers"
  shows "length (concat layers) = length layers \<and>
         list_all (\<lambda>op. qargs op = [0] \<and> kind op \<in> set (one_q_ops reset)) (concat layers)"
  using assms
proof (induction layers)
  case Nil
  show ?case by simp
next
  case (Cons L layers)
  then obtain op where "L = [op]" "qargs op = [0]" "kind op \<in> set (one_q_ops reset)"
    using layer_ok_single[of conditional reset L] by auto
  then show ?case using Cons by simp
qed

lemma one_q_ops_not_cx: "g \<in> set (one_q_ops reset) \<Longrightarrow> g \<noteq> CXGate"
  by (auto simp: one_q_ops_def split: if_splits)

text \<open>On 63 qubits or more the bound \<open>np.power(2, num_qubits)\<close> has wrapped around to
  zero or below, and the draw of a condition value raises.\<close>

lemma condition_draw_fails:
  assumes "63 \<le> n" and "rng_choice R [0..<10] s = Inr (0, s1)"
  shows "attach_condition R n True cr op s = Inl ValueError_low_high"
proof -
  obtain h where "np_power 2 n = Inr h" "h \<le> 0" using np_power_large[OF assms(1)] by blast
  then show ?thesis using assms(2) by (simp add: attach_condition_def rng_integers_def)
qed

subsection \<open>The sampling source \<open>digit_rng\<close> keeps numpy's promises\<close>

lemma mset_rotate_same: "mset (rotate k xs) = mset xs"
proof (induction k)
  case 0
  show ?case by simp
next
  case (Suc k)
  have "mset (rotate1 ys) = mset ys" for ys :: "'a list"
    by (cases ys) simp_all
  then show ?case using Suc by simp
qed

lemma digit_rng_ok: "sampling_ok digit_rng"
proof -
  have "lo \<le> lo + int (s mod nat (hi - lo)) \<and> lo + int (s mod nat (hi - lo)) < hi"
    if "lo < hi" for lo hi :: int and s :: nat
  proof -
    have "0 < nat (hi - lo)" using that by simp
    then have "s mod nat (hi - lo) < nat (hi - lo)" by (rule mod_less_divisor)
    then show ?thesis by linarith
  qed
  then show ?thesis
    by (simp add: sampling_ok_def digit_rng_def mset_rotate_same)
qed

lemma digit_rng_randint_ok: "randint_ok digit_rng"
proof -
  have "lo \<le> lo + int (g mod nat (hi - lo)) \<and> lo + int (g mod nat (hi - lo)) < hi"
    if "lo < hi" for lo hi :: int and g :: nat
  proof -
    have "0 < nat (hi - lo)" using that by simp
    then have "g mod nat (hi - lo) < nat (hi - lo)" by (rule mod_less_divisor)
    then show ?thesis by linarith
  qed
  then show ?thesis
    by (simp add: randint_ok_def digit_rng_def)
qed

text \<open>Without a seed, the seed taken does depend on the global numpy state.\<close>

lemma absent_seed_uses_global_state:
  "fst (resolve_seed digit_rng None (0::nat)) \<noteq> fst (resolve_seed digit_rng None (1::nat))"
  by (simp add: resolve_seed_def digit_rng_def INT32_MAX_def)

section \<open>The claims\<close>

text \<open>
  C1. With an explicit seed the generated circuit does not depend on anything but the
  arguments: whatever the global numpy state is when the call starts, the outcome is the
  same, and the call leaves that state as it found it. So two calls with one seed and one
  set of flags give the same gates, operands, angles and conditions.
\<close>

theorem explicit_seed_deterministic:
  "fst (random_circuit R num_qubits depth measure_flag conditional reset (Some seed) g1) =
   fst (random_circuit R num_qubits depth measure_flag conditional reset (Some seed) g2) \<and>
   snd (random_circuit R num_qubits depth measure_flag conditional reset (Some seed) g1) = g1"
  by (simp add: random_circuit_def resolve_seed_def split: sum.splits option.splits prod.splits)

text \<open>
  C2. In a returned circuit the operations before the final measurements split into
  \<open>depth\<close> layers, and in every layer the operand groups, put end to end, hold every
  qubit index of \<open>[0, num_qubits)\<close> exactly once, each group of one or two qubits.
  The call does return a circuit when the seed is one numpy takes (none, or not negative),
  unless it is conditional on 63 qubits or more.
\<close>

theorem layers_partition_qubits:
  assumes "sampling_ok R" and "1 \<le> num_qubits"
  shows "(\<forall>c. fst (random_circuit R num_qubits depth measure_flag conditional reset seed g) = Some (Inr c) \<longrightarrow>
           (\<exists>layers. length layers = nat depth \<and>
              data c = concat layers @
                (if measure_flag
                 then map (\<lambda>i. \<lparr>kind = Measure, params = [], qargs = [i], cargs = [i],
                                  condition = None\<rparr>) [0..<nat num_qubits]
                 else []) \<and>
              (\<forall>L\<in>set layers.
                 mset (concat (map qargs L)) = mset [0..<nat num_qubits] \<and>
                 (\<forall>op\<in>set L. length (qargs op) = 1 \<or> length (qargs op) = 2)))) \<and>
         (randint_ok R \<and> seed_ok seed \<and> \<not> (conditional \<and> 63 \<le> num_qubits \<and> 0 < depth) \<longrightarrow>
           (\<exists>c. fst (random_circuit R num_qubits depth measure_flag conditional reset seed g) = Some (Inr c)))"
proof (intro conjI allI impI)
  fix c
  assume r: "fst (random_circuit R num_qubits depth measure_flag conditional reset seed g) = Some (Inr c)"
  from random_circuit_shape[OF assms r] obtain layers where
    d: "data c = concat layers @
          (if measure_flag
           then map (\<lambda>i. \<lparr>kind = Measure, params = [], qargs = [i], cargs = [i],
                                  condition = None\<rparr>) [0..<nat num_qubits]
           else [])"
    and l: "length layers = nat depth"
    and o: "list_all (layer_ok num_qubits conditional reset) layers"
    by blast
  have "\<forall>L\<in>set layers.
          mset (concat (map qargs L)) = mset [0..<nat num_qubits] \<and>
          (\<forall>op\<in>set L. length (qargs op) = 1 \<or> length (qargs op) = 2)"
  proof (intro ballI conjI)
    fix L assume "L \<in> set layers"
    then have lk: "layer_ok num_qubits conditional reset L"
      using o by (simp add: list_all_iff)
    show "mset (concat (map qargs L)) = mset [0..<nat num_qubits]"
      using lk by (simp add: layer_ok_def)
    fix op assume "op \<in> set L"
    then have "op_ok num_qubits conditional reset op"
      using lk by (simp add: layer_ok_def list_all_iff)
    then show "length (qargs op) = 1 \<or> length (qargs op) = 2"
      by (rule op_ok_sizes)
  qed
  then show "\<exists>layers. length layers = nat depth \<and>
              data c = concat layers @
                (if measure_flag
                 then map (\<lambda>i. \<lparr>kind = Measure, params = [], qargs = [i], cargs = [i],
                                  condition = None\<rparr>) [0..<nat num_qubits]
                 else []) \<and>
              (\<forall>L\<in>set layers.
                 mset (concat (map qargs L)) = mset [0..<nat num_qubits] \<and>
                 (\<forall>op\<in>set L. length (qargs op) = 1 \<or> length (qargs op) = 2))"
    using d l by blast
next
  assume "randint_ok R \<and> seed_ok seed \<and> \<not> (conditional \<and> 63 \<le> num_qubits \<and> 0 < depth)"
  then show "\<exists>c. fst (random_circuit R num_qubits depth measure_flag conditional reset seed g) = Some (Inr c)"
    using random_circuit_returns[OF assms(1) _ assms(2)] by blast
qed

theorem layers_partition_qubits_witness:
  "sampling_ok digit_rng \<and> (1::int) \<le> 3 \<and> randint_ok digit_rng \<and> seed_ok (Some 12345) \<and>
   (\<exists>c layers.
      fst (random_circuit digit_rng 3 2 True False False (Some 12345) (0::nat)) = Some (Inr c) \<and>
      length layers = 2 \<and>
      data c = concat layers @
        map (\<lambda>i. \<lparr>kind = Measure, params = [], qargs = [i], cargs = [i],
                                  condition = None\<rparr>) [0..<3] \<and>
      (\<forall>L\<in>set layers.
         mset (concat (map qargs L)) = mset [0..<3] \<and>
         (\<forall>op\<in>set L. length (qargs op) = 1 \<or> length (qargs op) = 2)))"
proof -
  have s: "seed_ok (Some 12345)" by (simp add: seed_ok_def)
  show ?thesis
    using layers_partition_qubits[OF digit_rng_ok, of 3 2 True False False "Some 12345" "0::nat"]
      digit_rng_ok digit_rng_randint_ok s
    by fastforce
qed

text \<open>
  C3. A request for zero qubits fails with the register error, whatever the depth, the
  flags and the seed. The failure comes first: no seed is drawn (the global state is
  untouched), no layer is built and no circuit is returned.
\<close>

theorem zero_qubits_rejected:
  "random_circuit R 0 depth measure_flag conditional reset seed g = (Some (Inl CircuitError), g)"
  by (simp add: random_circuit_def QuantumRegister_def Register_def)

text \<open>
  C4. A returned circuit has exactly \<open>num_qubits\<close> quantum wires, and \<open>num_qubits\<close>
  classical wires when \<open>measure or conditional\<close>, none otherwise. The call does return a
  circuit when the seed is one numpy takes, unless it is conditional on 63 qubits or more.
\<close>

theorem wire_counts:
  assumes "sampling_ok R" and "1 \<le> num_qubits"
  shows "(\<forall>c. fst (random_circuit R num_qubits depth measure_flag conditional reset seed g) = Some (Inr c) \<longrightarrow>
            num_qubits_of c = nat num_qubits \<and>
            num_clbits_of c = (if measure_flag \<or> conditional then nat num_qubits else 0)) \<and>
         (randint_ok R \<and> seed_ok seed \<and> \<not> (conditional \<and> 63 \<le> num_qubits \<and> 0 < depth) \<longrightarrow>
           (\<exists>c. fst (random_circuit R num_qubits depth measure_flag conditional reset seed g) = Some (Inr c)))"
proof (intro conjI allI impI)
  fix c
  assume r: "fst (random_circuit R num_qubits depth measure_flag conditional reset seed g) = Some (Inr c)"
  from random_circuit_shape[OF assms r]
  have q: "qregs c = [\<lparr>reg_name = ''q'', reg_size = nat num_qubits\<rparr>]"
    and k: "cregs c = (if measure_flag \<or> conditional
                       then [\<lparr>reg_name = ''c'', reg_size = nat num_qubits\<rparr>] else [])"
    by blast+
  show "num_qubits_of c = nat num_qubits" by (simp add: num_qubits_of_def q)
  show "num_clbits_of c = (if measure_flag \<or> conditional then nat num_qubits else 0)"
    by (simp add: num_clbits_of_def k)
next
  assume "randint_ok R \<and> seed_ok seed \<and> \<not> (conditional \<and> 63 \<le> num_qubits \<and> 0 < depth)"
  then show "\<exists>c. fst (random_circuit R num_qubits depth measure_flag conditional reset seed g) = Some (Inr c)"
    using random_circuit_returns[OF assms(1) _ assms(2)] by blast
qed

theorem wire_counts_witness:
  "sampling_ok digit_rng \<and> (1::int) \<le> 4 \<and> randint_ok digit_rng \<and> seed_ok (Some 2024) \<and>
   (\<exists>c. fst (random_circuit digit_rng 4 3 False True True (Some 2024) (0::nat)) = Some (Inr c) \<and>
      num_qubits_of c = 4 \<and> num_clbits_of c = 4)"
proof -
  have s: "seed_ok (Some 2024)" by (simp add: seed_ok_def)
  show ?thesis
    using wire_counts[OF digit_rng_ok, of 4 3 False True True "Some 2024" "0::nat"]
      digit_rng_ok digit_rng_randint_ok s
    by fastforce
qed

text \<open>
  C5. With \<open>measure\<close> set, the last \<open>num_qubits\<close> operations of a returned circuit are
  measurements, each of one qubit into one classical bit: the \<open>i\<close>-th of them measures
  qubit \<open>i\<close> into bit \<open>i\<close>, so the bits are all different. Nothing follows them, and none
  of the operations before them is a measurement. The call does return a circuit when the
  seed is one numpy takes, unless it is conditional on 63 qubits or more.
\<close>

theorem final_measurements:
  assumes "sampling_ok R" and "1 \<le> num_qubits"
  shows "(\<forall>c. fst (random_circuit R num_qubits depth True conditional reset seed g) =
              Some (Inr c) \<longrightarrow>
            nat num_qubits \<le> length (data c) \<and>
            drop (length (data c) - nat num_qubits) (data c) =
              map (\<lambda>i. \<lparr>kind = Measure, params = [], qargs = [i], cargs = [i],
                                  condition = None\<rparr>) [0..<nat num_qubits] \<and>
            list_all (\<lambda>op. kind op \<noteq> Measure)
              (take (length (data c) - nat num_qubits) (data c))) \<and>
         (randint_ok R \<and> seed_ok seed \<and> \<not> (conditional \<and> 63 \<le> num_qubits \<and> 0 < depth) \<longrightarrow>
           (\<exists>c. fst (random_circuit R num_qubits depth True conditional reset seed g) =
              Some (Inr c)))"
proof (intro conjI allI impI)
  fix c
  assume r: "fst (random_circuit R num_qubits depth True conditional reset seed g) =
              Some (Inr c)"
  from random_circuit_shape[OF assms r] obtain layers where
    d: "data c = concat layers @
          map (\<lambda>i. \<lparr>kind = Measure, params = [], qargs = [i], cargs = [i],
                                  condition = None\<rparr>) [0..<nat num_qubits]"
    and o: "list_all (layer_ok num_qubits conditional reset) layers"
    by auto
  show "nat num_qubits \<le> length (data c)" by (simp add: d)
  show "drop (length (data c) - nat num_qubits) (data c) =
          map (\<lambda>i. \<lparr>kind = Measure, params = [], qargs = [i], cargs = [i],
                                  condition = None\<rparr>) [0..<nat num_qubits]"
    by (simp add: d)
  have "list_all (\<lambda>op. kind op \<noteq> Measure) (concat layers)"
    using layers_all_ops[OF o] by (auto simp: list_all_iff dest: op_ok_not_measure)
  then show "list_all (\<lambda>op. kind op \<noteq> Measure)
              (take (length (data c) - nat num_qubits) (data c))"
    by (simp add: d)
next
  assume "randint_ok R \<and> seed_ok seed \<and> \<not> (conditional \<and> 63 \<le> num_qubits \<and> 0 < depth)"
  then show "\<exists>c. fst (random_circuit R num_qubits depth True conditional reset seed g) =
              Some (Inr c)"
    using random_circuit_returns[OF assms(1) _ assms(2)] by blast
qed

theorem final_measurements_witness:
  "sampling_ok digit_rng \<and> (1::int) \<le> 3 \<and> randint_ok digit_rng \<and> seed_ok (Some 12345) \<and>
   (\<exists>c. fst (random_circuit digit_rng 3 2 True True False (Some 12345) (0::nat)) = Some (Inr c) \<and>
      drop (length (data c) - 3) (data c) =
        [\<lparr>kind = Measure, params = [], qargs = [0], cargs = [0], condition = None\<rparr>,
         \<lparr>kind = Measure, params = [], qargs = [1], cargs = [1], condition = None\<rparr>,
         \<lparr>kind = Measure, params = [], qargs = [2], cargs = [2], condition = None\<rparr>] \<and>
      list_all (\<lambda>op. kind op \<noteq> Measure) (take (length (data c) - 3) (data c)))"
proof -
  have u: "[0..<3] = [0, 1, 2]" by (simp add: upt_rec)
  have s: "seed_ok (Some 12345)" by (simp add: seed_ok_def)
  show ?thesis
    using final_measurements[OF digit_rng_ok, of 3 2 True False "Some 12345" "0::nat"]
      digit_rng_ok digit_rng_randint_ok u s
    by fastforce
qed

text \<open>
  C6. With \<open>conditional\<close> unset no operation of a returned circuit carries a classical
  condition, whatever the seed and the other flags; and the call does return a circuit
  when the seed is one numpy takes.
\<close>

theorem unconditional_no_condition:
  assumes "sampling_ok R" and "1 \<le> num_qubits"
  shows "(\<forall>c. fst (random_circuit R num_qubits depth measure_flag False reset seed g) =
              Some (Inr c) \<longrightarrow>
            list_all (\<lambda>op. condition op = None) (data c)) \<and>
         (randint_ok R \<and> seed_ok seed \<longrightarrow>
           (\<exists>c. fst (random_circuit R num_qubits depth measure_flag False reset seed g) =
              Some (Inr c)))"
proof (intro conjI allI impI)
  fix c
  assume r: "fst (random_circuit R num_qubits depth measure_flag False reset seed g) =
              Some (Inr c)"
  from random_circuit_shape[OF assms r] obtain layers where
    d: "data c = concat layers @
          (if measure_flag
           then map (\<lambda>i. \<lparr>kind = Measure, params = [], qargs = [i], cargs = [i],
                                  condition = None\<rparr>) [0..<nat num_qubits]
           else [])"
    and o: "list_all (layer_ok num_qubits False reset) layers"
    by auto
  have "list_all (\<lambda>op. condition op = None) (concat layers)"
    using layers_all_ops[OF o] by (auto simp: list_all_iff dest: op_ok_unconditional)
  then show "list_all (\<lambda>op. condition op = None) (data c)"
    by (auto simp: d list_all_iff)
next
  assume "randint_ok R \<and> seed_ok seed"
  then show "\<exists>c. fst (random_circuit R num_qubits depth measure_flag False reset seed g) =
              Some (Inr c)"
    using random_circuit_returns[OF assms(1) _ assms(2), of seed False depth] by blast
qed

theorem unconditional_no_condition_witness:
  "sampling_ok digit_rng \<and> (1::int) \<le> 70 \<and> randint_ok digit_rng \<and> seed_ok (Some 99) \<and>
   (\<exists>c. fst (random_circuit digit_rng 70 4 True False True (Some 99) (0::nat)) = Some (Inr c) \<and>
      list_all (\<lambda>op. condition op = None) (data c))"
proof -
  have s: "seed_ok (Some 99)" by (simp add: seed_ok_def)
  show ?thesis
    using unconditional_no_condition[OF digit_rng_ok, of 70 4 True True "Some 99" "0::nat"]
      digit_rng_ok digit_rng_randint_ok s
    by fastforce
qed

text \<open>
  C7. In conditional mode an operation gets a condition when the draw from \<open>{0..9}\<close>
  is 0, with a value drawn from \<open>[0, 2^num_qubits)\<close>. The code computes the bound with
  \<open>np.power\<close> in 64-bit integers: on 64 qubits the bound is 0, the draw of the value
  raises, and the call fails instead of attaching a condition. Here the request is
  \<open>num_qubits = 64, depth = 1, conditional = true\<close>, with a source whose first draws are
  all 0.
\<close>

theorem condition_range_overflow:
  "fst (random_circuit digit_rng 64 1 False True False (Some 0) (0::nat)) =
     Some (Inl ValueError_low_high)"
  by code_simp

text \<open>
  C8. For a depth of zero or more, the call returns a circuit (when the seed is one numpy
  takes, and unless it is conditional on 63 qubits or more), and the operations of a
  returned circuit before its final measurements are exactly \<open>depth\<close> layers, so that
  every qubit is the operand of exactly \<open>depth\<close> of them. With depth 0 there is no layer
  operation. The request \<open>num_qubits = 1, depth = 0, measure = true\<close> gives the circuit of
  one quantum wire, one classical wire and one operation, the measurement of qubit 0 into
  classical bit 0.
\<close>

theorem depth_layers_emitted:
  assumes "sampling_ok R" and "1 \<le> num_qubits" and "0 \<le> depth"
  shows "(\<forall>c. fst (random_circuit R num_qubits depth measure_flag conditional reset seed g) = Some (Inr c) \<longrightarrow>
            (\<exists>layers. int (length layers) = depth \<and>
               list_all (layer_ok num_qubits conditional reset) layers \<and>
               layer_ops num_qubits measure_flag c = concat layers) \<and>
            (\<forall>q<nat num_qubits.
               int (length (filter (\<lambda>op. q \<in> set (qargs op))
                      (layer_ops num_qubits measure_flag c))) = depth)) \<and>
         (randint_ok R \<and> seed_ok seed \<and> \<not> (conditional \<and> 63 \<le> num_qubits \<and> 0 < depth) \<longrightarrow>
            (\<exists>c. fst (random_circuit R num_qubits depth measure_flag conditional reset seed g) = Some (Inr c))) \<and>
         (randint_ok R \<and> seed_ok seed \<and> depth = 0 \<longrightarrow>
            (\<exists>c. fst (random_circuit R num_qubits depth measure_flag conditional reset seed g) = Some (Inr c) \<and>
              layer_ops num_qubits measure_flag c = [] \<and>
              data c = (if measure_flag
                        then map (\<lambda>i. \<lparr>kind = Measure, params = [], qargs = [i], cargs = [i],
                                     condition = None\<rparr>) [0..<nat num_qubits]
                        else []))) \<and>
         (randint_ok R \<and> seed_ok seed \<longrightarrow>
            fst (random_circuit R 1 0 True False False seed g) =
              Some (Inr \<lparr>qregs = [\<lparr>reg_name = ''q'', reg_size = 1\<rparr>],
                         cregs = [\<lparr>reg_name = ''c'', reg_size = 1\<rparr>],
                         data = [\<lparr>kind = Measure, params = [], qargs = [0], cargs = [0],
                                  condition = None\<rparr>]\<rparr>))"
proof (intro conjI allI impI)
  fix c
  assume r: "fst (random_circuit R num_qubits depth measure_flag conditional reset seed g) = Some (Inr c)"
  from random_circuit_layers[OF assms(1,2) r] obtain layers where
    lo: "layer_ops num_qubits measure_flag c = concat layers"
    and l: "length layers = nat depth"
    and o: "list_all (layer_ok num_qubits conditional reset) layers"
    by blast
  have li: "int (length layers) = depth" using l assms(3) by simp
  show "\<exists>layers. int (length layers) = depth \<and>
               list_all (layer_ok num_qubits conditional reset) layers \<and>
               layer_ops num_qubits measure_flag c = concat layers"
    using li o lo by blast
  fix q assume q: "q < nat num_qubits"
  have "list_all (\<lambda>L. length (filter (\<lambda>op. q \<in> set (qargs op)) L) = Suc 0) layers"
    using o q by (auto simp: list_all_iff intro: layer_touches_once)
  then have "length (filter (\<lambda>op. q \<in> set (qargs op)) (concat layers)) = length layers"
    by (rule filter_concat_count)
  then show "int (length (filter (\<lambda>op. q \<in> set (qargs op))
                      (layer_ops num_qubits measure_flag c))) = depth"
    using li lo by simp
next
  assume "randint_ok R \<and> seed_ok seed \<and> \<not> (conditional \<and> 63 \<le> num_qubits \<and> 0 < depth)"
  then show "\<exists>c. fst (random_circuit R num_qubits depth measure_flag conditional reset seed g) = Some (Inr c)"
    using random_circuit_returns[OF assms(1) _ assms(2)] by blast
next
  assume a: "randint_ok R \<and> seed_ok seed \<and> depth = 0"
  then have d0: "depth = 0" by blast
  obtain c where r: "fst (random_circuit R num_qubits depth measure_flag conditional reset seed g) = Some (Inr c)"
    using random_circuit_returns[OF assms(1) _ assms(2), of seed conditional depth
        measure_flag reset g] a
    by auto
  from random_circuit_layers[OF assms(1,2) r] obtain layers where
    lo: "layer_ops num_qubits measure_flag c = concat layers"
    and d: "data c = layer_ops num_qubits measure_flag c @
              (if measure_flag
               then map (\<lambda>i. \<lparr>kind = Measure, params = [], qargs = [i], cargs = [i],
                                     condition = None\<rparr>) [0..<nat num_qubits]
               else [])"
    and l: "length layers = nat depth"
    by blast
  have "layers = []" using l d0 by simp
  then have "layer_ops num_qubits measure_flag c = []" using lo by simp
  then show "\<exists>c. fst (random_circuit R num_qubits depth measure_flag conditional reset seed g) = Some (Inr c) \<and>
              layer_ops num_qubits measure_flag c = [] \<and>
              data c = (if measure_flag
                        then map (\<lambda>i. \<lparr>kind = Measure, params = [], qargs = [i], cargs = [i],
                                     condition = None\<rparr>) [0..<nat num_qubits]
                        else [])"
    using r d by auto
next
  assume a: "randint_ok R \<and> seed_ok seed"
  have "0 \<le> fst (resolve_seed R seed g)"
    using seed_resolved[of R seed g] a by blast
  then show "fst (random_circuit R 1 0 True False False seed g) =
              Some (Inr \<lparr>qregs = [\<lparr>reg_name = ''q'', reg_size = 1\<rparr>],
                         cregs = [\<lparr>reg_name = ''c'', reg_size = 1\<rparr>],
                         data = [\<lparr>kind = Measure, params = [], qargs = [0], cargs = [0],
                                  condition = None\<rparr>]\<rparr>)"
    by (simp add: random_circuit_def QuantumRegister_def ClassicalRegister_def Register_def
        QuantumCircuit_def make_cr_def add_register_def finalize_def measure_all_def
        measure_op_def default_rng_def split: prod.splits)
      (metis fst_conv not_less)
qed

theorem depth_layers_emitted_witness:
  "sampling_ok digit_rng \<and> (1::int) \<le> 3 \<and> (0::int) \<le> 2 \<and>
   randint_ok digit_rng \<and> seed_ok (Some 12345) \<and>
   (\<exists>c. fst (random_circuit digit_rng 3 2 True False False (Some 12345) (0::nat)) = Some (Inr c) \<and>
      (\<exists>layers. length layers = 2 \<and> layer_ops 3 True c = concat layers) \<and>
      (\<forall>q<3. length (filter (\<lambda>op. q \<in> set (qargs op)) (layer_ops 3 True c)) = 2))"
proof -
  have s: "seed_ok (Some 12345)" by (simp add: seed_ok_def)
  note t = depth_layers_emitted[OF digit_rng_ok, of 3 2 True False False "Some 12345" "0::nat"]
  obtain c where
    r: "fst (random_circuit digit_rng 3 2 True False False (Some 12345) (0::nat)) = Some (Inr c)"
    using t digit_rng_randint_ok s by auto
  have "(\<exists>layers. int (length layers) = 2 \<and> list_all (layer_ok 3 False False) layers \<and>
            layer_ops 3 True c = concat layers) \<and>
        (\<forall>q<nat 3. int (length (filter (\<lambda>op. q \<in> set (qargs op)) (layer_ops 3 True c))) = 2)"
    using t r by simp
  then show ?thesis using r digit_rng_ok digit_rng_randint_ok s by auto
qed

text \<open>
  C9. On one qubit a returned circuit has exactly \<open>depth\<close> layer operations, one for each
  layer, every one of them on qubit 0 alone with a gate of the one-qubit bucket; no
  two-qubit gate appears. For depth 5 these are five single-qubit operations. The call
  does return a circuit when the seed is one numpy takes.
\<close>

theorem single_qubit_layers:
  assumes "sampling_ok R"
  shows "(\<forall>c. fst (random_circuit R 1 depth measure_flag conditional reset seed g) =
              Some (Inr c) \<longrightarrow>
           length (layer_ops 1 measure_flag c) = nat depth \<and>
           list_all (\<lambda>op. qargs op = [0] \<and> kind op \<in> set (one_q_ops reset) \<and> kind op \<noteq> CXGate)
             (layer_ops 1 measure_flag c)) \<and>
         (randint_ok R \<and> seed_ok seed \<longrightarrow>
           (\<exists>c. fst (random_circuit R 1 depth measure_flag conditional reset seed g) =
              Some (Inr c)))"
proof (intro conjI allI impI)
  have n: "(1::int) \<le> 1" by simp
  fix c
  assume r: "fst (random_circuit R 1 depth measure_flag conditional reset seed g) = Some (Inr c)"
  from random_circuit_layers[OF assms n r] obtain layers where
    lo: "layer_ops 1 measure_flag c = concat layers"
    and l: "length layers = nat depth"
    and o: "list_all (layer_ok 1 conditional reset) layers"
    by blast
  from single_layers[OF o]
  have a: "length (concat layers) = length layers"
    and b: "list_all (\<lambda>op. qargs op = [0] \<and> kind op \<in> set (one_q_ops reset)) (concat layers)"
    by blast+
  show "length (layer_ops 1 measure_flag c) = nat depth"
    using a lo l by simp
  show "list_all (\<lambda>op. qargs op = [0] \<and> kind op \<in> set (one_q_ops reset) \<and> kind op \<noteq> CXGate)
             (layer_ops 1 measure_flag c)"
    using b lo by (auto simp: list_all_iff dest: one_q_ops_not_cx)
next
  have n: "(1::int) \<le> 1" by simp
  assume "randint_ok R \<and> seed_ok seed"
  then show "\<exists>c. fst (random_circuit R 1 depth measure_flag conditional reset seed g) =
              Some (Inr c)"
    using random_circuit_returns[OF assms _ n, of seed conditional depth] by auto
qed

theorem single_qubit_layers_witness:
  "sampling_ok digit_rng \<and> randint_ok digit_rng \<and> seed_ok (Some 7) \<and>
   (\<exists>c. fst (random_circuit digit_rng 1 5 False False False (Some 7) (0::nat)) = Some (Inr c) \<and>
      length (layer_ops 1 False c) = 5 \<and>
      list_all (\<lambda>op. qargs op = [0] \<and> kind op \<in> {RXGate, RYGate, RZGate} \<and> kind op \<noteq> CXGate)
        (layer_ops 1 False c))"
proof -
  have s: "seed_ok (Some 7)" by (simp add: seed_ok_def)
  show ?thesis
    using single_qubit_layers[OF digit_rng_ok, of 5 False False False "Some 7" "0::nat"]
      digit_rng_ok digit_rng_randint_ok s
    by (auto simp: one_q_ops_def)
qed

text \<open>
  C10. The call always ends, and never with the error of a choice from an empty sequence
  nor with an unbound \<open>operation\<close>: every group has one or two operands, a group of one
  gets a gate of \<open>{RX, RY, RZ}\<close> (with \<open>Reset\<close> when the flag is set), a group of two
  gets \<open>CX\<close>. So the three-operand branch and the empty bucket are never reached.
\<close>

theorem gate_selection_never_fails:
  assumes "sampling_ok R"
  shows "fst (random_circuit R num_qubits depth measure_flag conditional reset seed g) \<noteq> None \<and>
         fst (random_circuit R num_qubits depth measure_flag conditional reset seed g) \<noteq>
           Some (Inl ValueError_empty) \<and>
         fst (random_circuit R num_qubits depth measure_flag conditional reset seed g) \<noteq>
           Some (Inl UnboundLocalError) \<and>
         (\<forall>c. fst (random_circuit R num_qubits depth measure_flag conditional reset seed g) =
              Some (Inr c) \<longrightarrow>
            list_all (\<lambda>op. length (qargs op) = 1 \<and>
                            kind op \<in> {RXGate, RYGate, RZGate} \<union> (if reset then {Reset} else {}) \<or>
                          length (qargs op) = 2 \<and> kind op = CXGate)
              (layer_ops num_qubits measure_flag c))"
proof (cases "1 \<le> num_qubits")
  case False
  then have "random_circuit R num_qubits depth measure_flag conditional reset seed g =
             (Some (Inl CircuitError), g)"
    by (simp add: random_circuit_def QuantumRegister_def Register_def)
  then show ?thesis by simp
next
  case n: True
  let ?out = "fst (random_circuit R num_qubits depth measure_flag conditional reset seed g)"
  have shape: "list_all (\<lambda>op. length (qargs op) = 1 \<and>
                            kind op \<in> {RXGate, RYGate, RZGate} \<union> (if reset then {Reset} else {}) \<or>
                          length (qargs op) = 2 \<and> kind op = CXGate)
              (layer_ops num_qubits measure_flag c)" if r: "?out = Some (Inr c)" for c
  proof -
    from random_circuit_layers[OF assms n r] obtain layers where
      lo: "layer_ops num_qubits measure_flag c = concat layers"
      and o: "list_all (layer_ok num_qubits conditional reset) layers"
      by blast
    show ?thesis
      using layers_all_ops[OF o] unfolding lo
      by (auto simp: list_all_iff op_ok_def one_q_ops_def two_q_ops_def split: if_splits)
  qed
  from random_circuit_cases[OF assms n, of seed g depth measure_flag conditional reset]
  have "?out = Some (Inl ValueError_seed) \<or> ?out = Some (Inl ValueError_low_high) \<or>
        (\<exists>c. ?out = Some (Inr c))"
    by blast
  then have "?out \<noteq> None" "?out \<noteq> Some (Inl ValueError_empty)"
    "?out \<noteq> Some (Inl UnboundLocalError)"
    by auto
  then show ?thesis using shape by blast
qed

theorem gate_selection_never_fails_witness:
  "sampling_ok digit_rng \<and>
   fst (random_circuit digit_rng 5 3 True True True (Some 31337) (0::nat)) \<noteq>
     Some (Inl ValueError_empty) \<and>
   (\<exists>c. fst (random_circuit digit_rng 5 3 True True True (Some 31337) (0::nat)) = Some (Inr c) \<and>
      list_all (\<lambda>op. length (qargs op) = 1 \<and> kind op \<in> {RXGate, RYGate, RZGate, Reset} \<or>
                    length (qargs op) = 2 \<and> kind op = CXGate)
        (layer_ops 5 True c))"
proof -
  have n: "(1::int) \<le> 5" by simp
  have s: "seed_ok (Some 31337)" by (simp add: seed_ok_def)
  obtain c where
    r: "fst (random_circuit digit_rng 5 3 True True True (Some 31337) (0::nat)) = Some (Inr c)"
    using random_circuit_returns[OF digit_rng_ok digit_rng_randint_ok n s,
        of True 3 True True "0::nat"]
    by auto
  show ?thesis
    using gate_selection_never_fails[OF digit_rng_ok, of 5 3 True True True "Some 31337" "0::nat"]
      digit_rng_ok r
    by (simp add: insert_commute)
qed

end
